theory Spec2Isabelle
  imports Complex_Main
begin

section \<open>JavaScript string primitives used by the hash-matching code\<close>

text \<open>
  Strings are lists of characters, a character being a code unit below 256, which covers
  every character of a hexadecimal string; numbers that the code uses as indices and sizes
  are integers. \<open>js_slice\<close> is \<^verbatim>\<open>String.prototype.slice(start, end)\<close>: a negative
  argument counts from the end, both are clamped to the string, and an empty string is
  returned when the start is not before the end. \<open>js_substring\<close> is
  \<^verbatim>\<open>String.prototype.substring(start, end)\<close>: both arguments are clamped to
  \<open>[0, length]\<close> and swapped when the first is the larger.
\<close>

definition js_slice :: "string \<Rightarrow> int \<Rightarrow> int \<Rightarrow> string" where
  "js_slice str start end =
     (let len = int (length str);
          from = (if start < 0 then max (len + start) 0 else min start len);
          to = (if end < 0 then max (len + end) 0 else min end len)
      in take (nat (to - from)) (drop (nat from) str))"

definition js_substring :: "string \<Rightarrow> int \<Rightarrow> int \<Rightarrow> string" where
  "js_substring str start end =
     (let len = int (length str);
          finalStart = min (max start 0) len;
          finalEnd = min (max end 0) len;
          from = min finalStart finalEnd;
          to = max finalStart finalEnd
      in take (nat (to - from)) (drop (nat from) str))"

definition startsWith :: "string \<Rightarrow> string \<Rightarrow> bool" where
  "startsWith str p = (take (length p) str = p)"

section \<open>Prefix removal\<close>

text \<open>
  \<^verbatim>\<open>removePrefix\<close> of the verification component:
  \<^verbatim>\<open>hexStr.startsWith("0x") ? hexStr.slice(2) : hexStr\<close>.
\<close>

definition removePrefix :: "string \<Rightarrow> string" where
  "removePrefix hexStr =
     (if startsWith hexStr ''0x'' then js_slice hexStr 2 (int (length hexStr)) else hexStr)"

section \<open>Sliding-window tokenizer\<close>

text \<open>
  \<^verbatim>\<open>for (let i = 0; i <= hexStr.length - size; i++) tokens.push(hexStr.slice(i, i + size))\<close>.
  The loop is the recursion on \<open>i\<close>, with the array \<open>tokens\<close> as accumulator;
  the parameter \<^verbatim>\<open>size\<close> is written \<open>sz\<close>.
\<close>

function tokenize_loop :: "string \<Rightarrow> int \<Rightarrow> int \<Rightarrow> string list \<Rightarrow> string list" where
  "tokenize_loop hexStr sz i tokens =
     (if i \<le> int (length hexStr) - sz
      then tokenize_loop hexStr sz (i + 1) (tokens @ [js_slice hexStr i (i + sz)])
      else tokens)"
  by pat_completeness auto
termination
  by (relation "measure (\<lambda>(hexStr, sz, i, tokens). nat (int (length hexStr) - sz - i + 1))") auto

declare tokenize_loop.simps [simp del]

definition tokenizeSlidingWindow :: "string \<Rightarrow> int \<Rightarrow> string list" where
  "tokenizeSlidingWindow hexStr sz = tokenize_loop hexStr sz 0 []"

text \<open>The form validation accepts a token size when it is not below 3 and not above 64.\<close>

definition tokenSizeAccepted :: "int \<Rightarrow> bool" where
  "tokenSizeAccepted tokenSize = (\<not> (tokenSize < 3 \<or> tokenSize > 64))"

text \<open>
  Reassembling a string from overlapping windows that advance by one character: the first
  window, followed by the final character of every later window.
\<close>

fun joinOverlapping :: "string list \<Rightarrow> string" where
  "joinOverlapping [] = []"
| "joinOverlapping (t # ts) = t @ concat (map (\<lambda>u. drop (length u - 1) u) ts)"

section \<open>Chunking tokenizer\<close>

text \<open>
  The tokenizer of the block-fetching component first drops a leading \<^verbatim>\<open>0x\<close> with
  \<^verbatim>\<open>hash.replace(/^0x/, "")\<close> and then runs
  \<^verbatim>\<open>for (let i = 0; i < cleanHash.length; i += size) tokens.push(cleanHash.substring(i, i + size))\<close>.
  Nothing in the loop forces \<open>i\<close> to grow, so the loop is a partial function: the value
  \<open>None\<close> stands for a call that does not return.
\<close>

definition replace_0x_prefix :: "string \<Rightarrow> string" where
  "replace_0x_prefix hash = (if startsWith hash ''0x'' then drop 2 hash else hash)"

partial_function (option) chunk_loop ::
  "string \<Rightarrow> int \<Rightarrow> int \<Rightarrow> string list \<Rightarrow> string list option" where
  "chunk_loop cleanHash sz i tokens =
     (if i < int (length cleanHash)
      then chunk_loop cleanHash sz (i + sz) (tokens @ [js_substring cleanHash i (i + sz)])
      else Some tokens)"

declare chunk_loop.simps [code]

definition tokenizeChunked :: "string \<Rightarrow> int \<Rightarrow> string list option" where
  "tokenizeChunked hash sz = chunk_loop (replace_0x_prefix hash) sz 0 []"

text \<open>A string of hexadecimal digits, in either letter case.\<close>

definition isHexString :: "string \<Rightarrow> bool" where
  "isHexString str = (\<forall>c \<in> set str. c \<in> set ''0123456789abcdefABCDEF'')"

text \<open>
  The partition of a list into consecutive pieces of \<open>n\<close> elements, the last piece being
  what is left; the chunking loop is proved equal to it.
\<close>

function chunks :: "nat \<Rightarrow> 'a list \<Rightarrow> 'a list list" where
  "chunks n xs = (if xs = [] \<or> n = 0 then [] else take n xs # chunks n (drop n xs))"
  by pat_completeness auto
termination
  by (relation "measure (\<lambda>(n, xs). length xs)") auto

declare chunks.simps [simp del]

section \<open>Set-based match finder\<close>

text \<open>
  \<^verbatim>\<open>toLowerCase\<close> on the ASCII letters, which are the only letters of a hexadecimal
  string; other characters are left as they are.
\<close>

definition toLowerCaseChar :: "char \<Rightarrow> char" where
  "toLowerCaseChar c =
     (let n = (of_char c :: nat) in if 65 \<le> n \<and> n \<le> 90 then char_of (n + 32) else c)"

definition toLowerCase :: "string \<Rightarrow> string" where
  "toLowerCase str = map toLowerCaseChar str"

text \<open>
  A JavaScript \<^verbatim>\<open>Set\<close> of strings is the list of its elements in insertion order,
  which is the order \<^verbatim>\<open>Array.from\<close> reads them in. \<open>set_add\<close> is
  \<^verbatim>\<open>Set.prototype.add\<close> and \<open>set_has\<close> is \<^verbatim>\<open>Set.prototype.has\<close>.
\<close>

definition set_add :: "string list \<Rightarrow> string \<Rightarrow> string list" where
  "set_add st v = (if v \<in> set st then st else st @ [v])"

definition set_has :: "string list \<Rightarrow> string \<Rightarrow> bool" where
  "set_has st v = (v \<in> set st)"

text \<open>
  The first loop of \<^verbatim>\<open>findMatchingTokens\<close>:
  \<^verbatim>\<open>for (let i = 0; i <= cleanHash1.length - size; i++) userGuessTokens.add(cleanHash1.substring(i, i + size))\<close>.
\<close>

function userGuessTokens_loop :: "string \<Rightarrow> int \<Rightarrow> int \<Rightarrow> string list \<Rightarrow> string list" where
  "userGuessTokens_loop cleanHash1 sz i userGuessTokens =
     (if i \<le> int (length cleanHash1) - sz
      then userGuessTokens_loop cleanHash1 sz (i + 1)
             (set_add userGuessTokens (js_substring cleanHash1 i (i + sz)))
      else userGuessTokens)"
  by pat_completeness auto
termination
  by (relation "measure (\<lambda>(cleanHash1, sz, i, st). nat (int (length cleanHash1) - sz - i + 1))") auto

declare userGuessTokens_loop.simps [simp del]

text \<open>
  The second loop: every window of the fetched hash that the first set has is added to
  \<^verbatim>\<open>foundMatches\<close>.
\<close>

function foundMatches_loop ::
  "string \<Rightarrow> int \<Rightarrow> string list \<Rightarrow> int \<Rightarrow> string list \<Rightarrow> string list" where
  "foundMatches_loop cleanHash2 sz userGuessTokens i foundMatches =
     (if i \<le> int (length cleanHash2) - sz
      then foundMatches_loop cleanHash2 sz userGuessTokens (i + 1)
             (if set_has userGuessTokens (js_substring cleanHash2 i (i + sz))
              then set_add foundMatches (js_substring cleanHash2 i (i + sz))
              else foundMatches)
      else foundMatches)"
  by pat_completeness auto
termination
  by (relation "measure (\<lambda>(cleanHash2, sz, st, i, fm). nat (int (length cleanHash2) - sz - i + 1))") auto

declare foundMatches_loop.simps [simp del]

text \<open>
  \<^verbatim>\<open>if (!hash1 || !hash2 || size <= 0) return [];\<close> comes first; a string is falsy
  exactly when it is empty.
\<close>

definition findMatchingTokens :: "string \<Rightarrow> string \<Rightarrow> int \<Rightarrow> string list" where
  "findMatchingTokens hash1 hash2 sz =
     (if hash1 = [] \<or> hash2 = [] \<or> sz \<le> 0 then []
      else let cleanHash1 = removePrefix (toLowerCase hash1);
               cleanHash2 = removePrefix (toLowerCase hash2);
               userGuessTokens = userGuessTokens_loop cleanHash1 sz 0 []
           in foundMatches_loop cleanHash2 sz userGuessTokens 0 [])"

section \<open>Inline matcher of the block-fetching component\<close>

text \<open>
  \<^verbatim>\<open>guessTokens.forEach((token, index) => { if (fetchedTokens.includes(token)) matches.push(`${index}:${token}`) })\<close>.
  \<open>matchEntries\<close> is the loop with each pushed entry kept as the pair of index and token,
  \<open>matchTokens\<close> renders the entries as the strings the code pushes.
\<close>

fun forEach_match ::
  "string list \<Rightarrow> nat \<Rightarrow> string list \<Rightarrow> (nat \<times> string) list \<Rightarrow> (nat \<times> string) list" where
  "forEach_match [] index fetchedTokens matches = matches"
| "forEach_match (token # rest) index fetchedTokens matches =
     forEach_match rest (Suc index) fetchedTokens
       (if token \<in> set fetchedTokens then matches @ [(index, token)] else matches)"

definition matchEntries :: "string list \<Rightarrow> string list \<Rightarrow> (nat \<times> string) list" where
  "matchEntries guessTokens fetchedTokens = forEach_match guessTokens 0 fetchedTokens []"

fun decimal :: "nat \<Rightarrow> string" where
  "decimal n =
     (if n < 10 then [char_of (48 + n)] else decimal (n div 10) @ [char_of (48 + n mod 10)])"

declare decimal.simps [simp del]

definition matchTokens :: "string list \<Rightarrow> string list \<Rightarrow> string list" where
  "matchTokens guessTokens fetchedTokens =
     map (\<lambda>(index, token). decimal index @ '':'' @ token) (matchEntries guessTokens fetchedTokens)"

text \<open>
  The set policy in the words of the specification, for comparison with the code: the
  distinct tokens of \<open>a\<close> that occur in \<open>b\<close>, in the order of their first occurrence in
  \<open>a\<close>, each with the first index at which it occurs in \<open>a\<close> and in \<open>b\<close>.
\<close>

definition firstOccurrences :: "'a list \<Rightarrow> 'a list" where
  "firstOccurrences xs = rev (remdups (rev xs))"

definition firstIndex :: "'a list \<Rightarrow> 'a \<Rightarrow> nat" where
  "firstIndex xs x = length (takeWhile (\<lambda>y. y \<noteq> x) xs)"

definition findMatches_SET_spec :: "string list \<Rightarrow> string list \<Rightarrow> (string \<times> nat \<times> nat) list" where
  "findMatches_SET_spec a b =
     map (\<lambda>t. (t, firstIndex a t, firstIndex b t)) (filter (\<lambda>t. t \<in> set b) (firstOccurrences a))"

section \<open>Block-distance classification\<close>

datatype indication = DarkGreen | LightGreen | LightRed | DarkRed

record BlockRangeIndication =
  blockDistance :: int
  indication :: indication
  color :: string

text \<open>
  \<^verbatim>\<open>calculateBlockRangeIndication(distance)\<close> of the block-fetching component, with the
  limits 2, 10 and 256 written into its comparisons.
\<close>

definition calculateBlockRangeIndication_fetch :: "int \<Rightarrow> BlockRangeIndication" where
  "calculateBlockRangeIndication_fetch distance =
     (if distance \<le> 2
      then \<lparr>blockDistance = distance, indication = DarkGreen, color = ''#10b981''\<rparr>
      else if distance \<le> 10
      then \<lparr>blockDistance = distance, indication = LightGreen, color = ''#34d399''\<rparr>
      else if distance \<le> 256
      then \<lparr>blockDistance = distance, indication = LightRed, color = ''#fb923c''\<rparr>
      else \<lparr>blockDistance = distance, indication = DarkRed, color = ''#ef4444''\<rparr>)"

text \<open>
  \<^verbatim>\<open>calculateBlockRangeIndication(blockDistance, isComplex)\<close> of the verification
  component: \<^verbatim>\<open>const limits = isComplex ? [32, 64, 96] : [64, 128, 192]\<close>, then the same
  chain of comparisons against \<^verbatim>\<open>limits[0]\<close>, \<^verbatim>\<open>limits[1]\<close> and \<^verbatim>\<open>limits[2]\<close>.
\<close>

definition calculateBlockRangeIndication :: "int \<Rightarrow> bool \<Rightarrow> BlockRangeIndication" where
  "calculateBlockRangeIndication distance isComplex =
     (let limits = (if isComplex then [32, 64, 96] else [64, 128, 192])
      in if distance \<le> limits ! 0
         then \<lparr>blockDistance = distance, indication = DarkGreen, color = ''#10b981''\<rparr>
         else if distance \<le> limits ! 1
         then \<lparr>blockDistance = distance, indication = LightGreen, color = ''#34d399''\<rparr>
         else if distance \<le> limits ! 2
         then \<lparr>blockDistance = distance, indication = LightRed, color = ''#f87171''\<rparr>
         else \<lparr>blockDistance = distance, indication = DarkRed, color = ''#dc2626''\<rparr>)"

text \<open>
  The chain of comparisons that the two functions share, with the three limits as a
  parameter, and the number of a bucket (1 is the closest).
\<close>

definition classify :: "int \<Rightarrow> int \<times> int \<times> int \<Rightarrow> indication" where
  "classify distance limits =
     (case limits of (t1, t2, t3) \<Rightarrow>
        if distance \<le> t1 then DarkGreen
        else if distance \<le> t2 then LightGreen
        else if distance \<le> t3 then LightRed
        else DarkRed)"

fun bucketNumber :: "indication \<Rightarrow> nat" where
  "bucketNumber DarkGreen = 1"
| "bucketNumber LightGreen = 2"
| "bucketNumber LightRed = 3"
| "bucketNumber DarkRed = 4"

section \<open>Complex-mode block derivation\<close>

text \<open>
  A JavaScript number that may be \<^verbatim>\<open>NaN\<close> is an \<open>int option\<close>, \<open>None\<close> being
  \<^verbatim>\<open>NaN\<close>. \<open>parseInt16\<close> is \<^verbatim>\<open>parseInt(str, 16)\<close>: leading white space is skipped, a
  sign and then a \<^verbatim>\<open>0x\<close> or \<^verbatim>\<open>0X\<close> are read if present, and the longest run of
  hexadecimal digits that follows is the value; without a digit the result is \<^verbatim>\<open>NaN\<close>.
\<close>

definition isWhiteSpace :: "char \<Rightarrow> bool" where
  "isWhiteSpace c = ((of_char c :: nat) \<in> {9, 10, 11, 12, 13, 32, 160})"

definition hexDigitValue :: "char \<Rightarrow> int option" where
  "hexDigitValue c =
     (let n = (of_char c :: nat) in
      if 48 \<le> n \<and> n \<le> 57 then Some (int n - 48)
      else if 97 \<le> n \<and> n \<le> 102 then Some (int n - 87)
      else if 65 \<le> n \<and> n \<le> 70 then Some (int n - 55)
      else None)"

fun hexDigitsValue :: "int \<Rightarrow> string \<Rightarrow> int" where
  "hexDigitsValue acc [] = acc"
| "hexDigitsValue acc (c # cs) =
     (case hexDigitValue c of None \<Rightarrow> acc | Some v \<Rightarrow> hexDigitsValue (16 * acc + v) cs)"

definition parseInt16 :: "string \<Rightarrow> int option" where
  "parseInt16 str =
     (let trimmed = dropWhile isWhiteSpace str;
          sign = (if startsWith trimmed ''-'' then - 1 else 1 :: int);
          unsigned = (if startsWith trimmed ''-'' \<or> startsWith trimmed ''+''
                      then drop 1 trimmed else trimmed);
          digits = (if startsWith unsigned ''0x'' \<or> startsWith unsigned ''0X''
                    then drop 2 unsigned else unsigned)
      in case digits of
           [] \<Rightarrow> None
         | c # cs \<Rightarrow> (if hexDigitValue c = None then None
                      else Some (sign * hexDigitsValue 0 digits)))"

text \<open>
  The remainder operator \<^verbatim>\<open>%\<close> on integers, for a divisor other than zero: the result
  has the sign of the dividend.
\<close>

definition js_rem :: "int \<Rightarrow> int \<Rightarrow> int" where
  "js_rem a b = sgn a * (\<bar>a\<bar> mod \<bar>b\<bar>)"

text \<open>
  The constants of the complex branch of \<^verbatim>\<open>fetchTargetBlockHash\<close>:
  \<^verbatim>\<open>byteHex = targetHash.slice(2, 4)\<close>, \<^verbatim>\<open>byteValue = parseInt(byteHex, 16)\<close>,
  \<^verbatim>\<open>adjustedPosition = byteValue % 256\<close> and
  \<^verbatim>\<open>randomBlockNumber = targetBlockCount - adjustedPosition\<close>. The number is then handed
  to the block lookup; no comparison with zero stands in between.
\<close>

record ComplexDerivation =
  byteHex :: string
  byteValue :: "int option"
  adjustedPosition :: "int option"
  randomBlockNumber :: "int option"

definition deriveRandomBlock_fetch :: "string \<Rightarrow> int \<Rightarrow> ComplexDerivation" where
  "deriveRandomBlock_fetch targetHash targetBlockCount =
     (let byteHex = js_slice targetHash 2 4;
          byteValue = parseInt16 byteHex;
          adjustedPosition = map_option (\<lambda>v. js_rem v 256) byteValue;
          randomBlockNumber = map_option (\<lambda>p. targetBlockCount - p) adjustedPosition
      in \<lparr>byteHex = byteHex, byteValue = byteValue, adjustedPosition = adjustedPosition,
          randomBlockNumber = randomBlockNumber\<rparr>)"

text \<open>
  The same derivation in \<^verbatim>\<open>handleVerify\<close>:
  \<^verbatim>\<open>ranBlockPos = (byteValue % 100) + 1\<close> and
  \<^verbatim>\<open>adjustedRanBlockPos = targetBlockCount - ranBlockPos\<close>.
\<close>

definition deriveRandomBlock_verify :: "string \<Rightarrow> int \<Rightarrow> ComplexDerivation" where
  "deriveRandomBlock_verify targetBlockHashStr targetBlockCount =
     (let byteHex = js_slice targetBlockHashStr 2 4;
          byteValue = parseInt16 byteHex;
          ranBlockPos = map_option (\<lambda>v. js_rem v 100 + 1) byteValue;
          adjustedRanBlockPos = map_option (\<lambda>p. targetBlockCount - p) ranBlockPos
      in \<lparr>byteHex = byteHex, byteValue = byteValue, adjustedPosition = ranBlockPos,
          randomBlockNumber = adjustedRanBlockPos\<rparr>)"

text \<open>A block hash as the chain client returns it: \<^verbatim>\<open>0x\<close> and 64 hexadecimal digits.\<close>

definition isBlockHash :: "string \<Rightarrow> bool" where
  "isBlockHash str = (startsWith str ''0x'' \<and> length str = 66 \<and> isHexString (drop 2 str))"

text \<open>
  The value of the first byte of a block hash, read off the hash itself: the characters
  at positions 2 and 3, the two that follow \<^verbatim>\<open>0x\<close>, as a number in base 16. The value of
  a digit is its place in \<open>0123456789abcdef\<close>, the letter case being ignored.
\<close>

definition digitPlace :: "char \<Rightarrow> int" where
  "digitPlace c =
     int (length (takeWhile (\<lambda>d. d \<noteq> toLowerCaseChar c) ''0123456789abcdef''))"

definition firstByteValue :: "string \<Rightarrow> int" where
  "firstByteValue str = 16 * digitPlace (str ! 2) + digitPlace (str ! 3)"

section \<open>Positional comparison\<close>

text \<open>
  The error kinds: the two of the specification's error model, and the
  \<^verbatim>\<open>SyntaxError\<close> of the \<^verbatim>\<open>RegExp\<close> constructor.
\<close>

datatype error = FormatError | RangeError | SyntaxError

text \<open>
  \<^verbatim>\<open>finalBlockHash.replace("0x", "")\<close> removes the first occurrence of \<^verbatim>\<open>0x\<close>, wherever
  it is.
\<close>

fun replace_first_0x :: "string \<Rightarrow> string" where
  "replace_first_0x [] = []"
| "replace_first_0x (c # cs) =
     (if c = CHR ''0'' \<and> startsWith cs ''x'' then drop 1 cs else c # replace_first_0x cs)"

text \<open>
  \<^verbatim>\<open>str.match(/.{1,n}/g) || []\<close> for \<open>n \<ge> 1\<close>: from left to right, the longest run
  of at most \<open>n\<close> characters that holds no line terminator; a line terminator itself is
  skipped.
\<close>

definition isLineTerminator :: "char \<Rightarrow> bool" where
  "isLineTerminator c = ((of_char c :: nat) \<in> {10, 13})"

function regexChunks :: "nat \<Rightarrow> string \<Rightarrow> string list" where
  "regexChunks n str =
     (if str = [] then []
      else if takeWhile (\<lambda>c. \<not> isLineTerminator c) (take n str) = []
      then regexChunks n (drop 1 str)
      else takeWhile (\<lambda>c. \<not> isLineTerminator c) (take n str)
           # regexChunks n (drop (length (takeWhile (\<lambda>c. \<not> isLineTerminator c) (take n str))) str))"
  by pat_completeness auto
termination
  by (relation "measure (\<lambda>(n, str). length str)") auto

declare regexChunks.simps [simp del]

text \<open>
  The fetched tokens of \<^verbatim>\<open>handleVerify\<close>: the hash without \<^verbatim>\<open>0x\<close>, cut to
  \<^verbatim>\<open>tokenSize * userTokens.length\<close> characters and split by the regular expression.
  The constructor throws for \<open>tokenSize = 0\<close> (the bounds \<open>{1,0}\<close> are out of order); for
  a negative size the string is cut to nothing and there is no match.
\<close>

definition fetchedTokensOf :: "string \<Rightarrow> int \<Rightarrow> string list \<Rightarrow> error + string list" where
  "fetchedTokensOf finalBlockHash tokenSize userTokens =
     (if tokenSize = 0 then Inl SyntaxError
      else if tokenSize < 0 then Inr []
      else Inr (regexChunks (nat tokenSize)
                  (js_substring (replace_first_0x finalBlockHash) 0
                     (tokenSize * int (length userTokens)))))"

text \<open>
  \<^verbatim>\<open>userTokens.length === fetchedTokens.length && userTokens.every((token, i) => token === fetchedTokens[i])\<close>.
  Reading an array beyond its end gives \<^verbatim>\<open>undefined\<close>, which no token equals.
\<close>

fun every_equal_at :: "string list \<Rightarrow> nat \<Rightarrow> string list \<Rightarrow> bool" where
  "every_equal_at [] i fetchedTokens = True"
| "every_equal_at (token # rest) i fetchedTokens =
     ((i < length fetchedTokens \<and> token = fetchedTokens ! i)
      \<and> every_equal_at rest (Suc i) fetchedTokens)"

definition isMatch :: "string list \<Rightarrow> string list \<Rightarrow> bool" where
  "isMatch userTokens fetchedTokens =
     (length userTokens = length fetchedTokens \<and> every_equal_at userTokens 0 fetchedTokens)"

definition verifyTokens :: "string list \<Rightarrow> string \<Rightarrow> int \<Rightarrow> error + bool" where
  "verifyTokens userTokens finalBlockHash tokenSize =
     (case fetchedTokensOf finalBlockHash tokenSize userTokens of
        Inl e \<Rightarrow> Inl e
      | Inr fetchedTokens \<Rightarrow> Inr (isMatch userTokens fetchedTokens))"

text \<open>
  The positional policy in the words of the specification: the two sequences are compared
  index by index up to the shorter length, and there is a match only if neither is empty.
\<close>

definition positionalMatch_spec :: "string list \<Rightarrow> string list \<Rightarrow> bool" where
  "positionalMatch_spec a b = (a \<noteq> [] \<and> b \<noteq> [] \<and> list_all (\<lambda>(x, y). x = y) (zip a b))"

section \<open>The tokenizers and the normalizer in the words of the specification\<close>



definition normalize_spec :: "string \<Rightarrow> error + string" where
  "normalize_spec input =
     (let rest = (if startsWith input ''0x'' \<or> startsWith input ''0X'' then drop 2 input
                  else input)
      in if rest = [] \<or> \<not> isHexString rest then Inl FormatError else Inr rest)"

section \<open>Facts about the string primitives and the sliding-window loop\<close>

lemma tokenize_loop_eq:
  "tokenize_loop h s i acc = acc @ map (\<lambda>j. js_slice h j (j + s)) [i..int (length h) - s]"
proof (induction h s i acc rule: tokenize_loop.induct)
  case (1 hexStr sz i tokens)
  show ?case
  proof (cases "i \<le> int (length hexStr) - sz")
    case True
    then show ?thesis
      using 1 by (subst tokenize_loop.simps) (simp add: upto_rec1[of i])
  next
    case False
    then show ?thesis by (subst tokenize_loop.simps) simp
  qed
qed

lemma upto_as_upt: "0 \<le> i \<Longrightarrow> [i..j] = map int [nat i..<nat (j + 1)]"
proof (rule nth_equalityI)
  show "0 \<le> i \<Longrightarrow> length [i..j] = length (map int [nat i..<nat (j + 1)])"
    by simp
next
  fix k assume "0 \<le> i" and "k < length [i..j]"
  then have "i + int k \<le> j" by simp
  then show "[i..j] ! k = map int [nat i..<nat (j + 1)] ! k"
    using \<open>0 \<le> i\<close> by simp
qed

lemma js_slice_window:
  "0 \<le> j \<Longrightarrow> 0 \<le> s \<Longrightarrow> j + s \<le> int (length h) \<Longrightarrow>
   js_slice h j (j + s) = take (nat s) (drop (nat j) h)"
  unfolding js_slice_def Let_def by (simp add: min_absorb1)

lemma js_substring_window:
  "0 \<le> j \<Longrightarrow> 0 \<le> s \<Longrightarrow> j + s \<le> int (length h) \<Longrightarrow>
   js_substring h j (j + s) = take (nat s) (drop (nat j) h)"
  unfolding js_substring_def Let_def by (simp add: min_absorb1 max_absorb1 max_absorb2)


lemma tokenizeSlidingWindow_windows:
  assumes "0 \<le> s" "s \<le> int (length h)"
  shows "tokenizeSlidingWindow h s =
         map (\<lambda>j. take (nat s) (drop j h)) [0..<length h - nat s + 1]"
proof -
  have n: "nat (int (length h) - s + 1) = length h - nat s + 1"
    using assms by linarith
  have "tokenizeSlidingWindow h s = map (\<lambda>j. js_slice h j (j + s)) [0..int (length h) - s]"
    by (simp add: tokenizeSlidingWindow_def tokenize_loop_eq)
  also have "\<dots> = map (\<lambda>j. js_slice h (int j) (int j + s)) [0..<length h - nat s + 1]"
    unfolding upto_as_upt[of 0 "int (length h) - s", simplified] n by (simp add: comp_def)
  also have "\<dots> = map (\<lambda>j. take (nat s) (drop j h)) [0..<length h - nat s + 1]"
  proof (rule map_cong[OF refl])
    fix j assume "j \<in> set [0..<length h - nat s + 1]"
    then have "int j + s \<le> int (length h)" using assms by auto
    then show "js_slice h (int j) (int j + s) = take (nat s) (drop j h)"
      using assms js_slice_window[of "int j" s h] by simp
  qed
  finally show ?thesis .
qed

lemma window_final_char:
  assumes "0 < k" "j + k \<le> length h"
  shows "drop (length (take k (drop j h)) - 1) (take k (drop j h)) = [h ! (j + k - 1)]"
proof -
  have len: "length (take k (drop j h)) = k" using assms by simp
  have "drop (k - 1) (take k (drop j h)) = take 1 (drop (j + (k - 1)) h)"
    using assms by (simp add: drop_take add.commute)
  also have "\<dots> = [h ! (j + k - 1)]"
    using assms by (simp add: take_Suc_conv_app_nth)
  finally show ?thesis using len by simp
qed

lemma joinOverlapping_windows:
  assumes "0 < k" "k \<le> length h"
  shows "joinOverlapping (map (\<lambda>j. take k (drop j h)) [0..<length h - k + 1]) = h"
proof -
  let ?n = "length h - k"
  have first_rest: "[0..<?n + 1] = 0 # map Suc [0..<?n]"
    by (simp add: upt_conv_Cons map_Suc_upt del: upt_Suc)
  have fin: "drop (length (take k (drop (Suc j) h)) - 1) (take k (drop (Suc j) h)) = [h ! (j + k)]"
    if "j < ?n" for j
  proof -
    from that have "Suc j + k \<le> length h" using assms by auto
    from window_final_char[OF assms(1) this] show ?thesis by simp
  qed
  have "map (\<lambda>u. drop (length u - 1) u) (map (\<lambda>j. take k (drop j h)) (map Suc [0..<?n]))
        = map (\<lambda>j. drop (length (take k (drop (Suc j) h)) - 1) (take k (drop (Suc j) h))) [0..<?n]"
    unfolding map_map comp_def ..
  also have "\<dots> = map (\<lambda>j. [h ! (j + k)]) [0..<?n]"
  proof (rule map_cong[OF refl])
    fix j assume "j \<in> set [0..<?n]"
    then have "j < ?n" by simp
    from fin[OF this]
    show "drop (length (take k (drop (Suc j) h)) - 1) (take k (drop (Suc j) h)) = [h ! (j + k)]" .
  qed
  finally have "concat (map (\<lambda>u. drop (length u - 1) u) (map (\<lambda>j. take k (drop j h)) (map Suc [0..<?n])))
        = concat (map (\<lambda>j. [h ! (j + k)]) [0..<?n])"
    by (rule arg_cong)
  also have "\<dots> = map (\<lambda>j. h ! (j + k)) [0..<?n]"
    by (rule concat_map_singleton)
  also have "\<dots> = drop k h"
    using assms by (intro nth_equalityI) (simp_all add: add.commute)
  finally have rest: "concat (map (\<lambda>u. drop (length u - 1) u)
       (map (\<lambda>j. take k (drop j h)) (map Suc [0..<?n]))) = drop k h" .
  have "joinOverlapping (map (\<lambda>j. take k (drop j h)) [0..<?n + 1])
        = joinOverlapping (take k (drop 0 h) # map (\<lambda>j. take k (drop j h)) (map Suc [0..<?n]))"
    by (simp only: first_rest list.map)
  also have "\<dots> = take k (drop 0 h) @ concat (map (\<lambda>u. drop (length u - 1) u)
       (map (\<lambda>j. take k (drop j h)) (map Suc [0..<?n])))"
    by (simp only: joinOverlapping.simps)
  also have "\<dots> = take k h @ drop k h"
    by (simp only: rest drop_0)
  finally show ?thesis by simp
qed


section \<open>Claims about the sliding-window tokenizer\<close>

text \<open>
  Claim C1. For every 64-character hash \<open>h\<close> and every token size \<open>s\<close> that the form
  validation accepts (3 to 64), the sliding-window tokenizer returns exactly \<open>64 - s + 1\<close>
  tokens, the \<open>i\<close>-th token is the substring \<open>h[i : i + s]\<close>, every token has length
  \<open>s\<close>, and joining the overlapping tokens gives \<open>h\<close> back. That the characters are
  hexadecimal digits is not needed.
\<close>

theorem sliding_window_tokens:
  assumes "length h = 64" and "tokenSizeAccepted s"
  shows "int (length (tokenizeSlidingWindow h s)) = 64 - s + 1
       \<and> (\<forall>i < length (tokenizeSlidingWindow h s).
             tokenizeSlidingWindow h s ! i = take (nat s) (drop i h))
       \<and> (\<forall>t \<in> set (tokenizeSlidingWindow h s). int (length t) = s)
       \<and> joinOverlapping (tokenizeSlidingWindow h s) = h"
proof -
  from assms have s: "3 \<le> s" "s \<le> 64"
    by (auto simp: tokenSizeAccepted_def)
  let ?k = "nat s"
  have k: "0 < ?k" "?k \<le> length h" using s assms(1) by auto
  have eq: "tokenizeSlidingWindow h s = map (\<lambda>j. take ?k (drop j h)) [0..<length h - ?k + 1]"
    using s assms(1) by (intro tokenizeSlidingWindow_windows) auto
  have count: "int (length (tokenizeSlidingWindow h s)) = 64 - s + 1"
    unfolding eq using s assms(1) by simp
  have nth: "tokenizeSlidingWindow h s ! i = take ?k (drop i h)"
    if "i < length (tokenizeSlidingWindow h s)" for i
    using that unfolding eq by (simp del: upt_Suc)
  have len: "int (length t) = s" if "t \<in> set (tokenizeSlidingWindow h s)" for t
  proof -
    from that have "t \<in> (\<lambda>j. take ?k (drop j h)) ` {0..<length h - ?k + 1}"
      unfolding eq by (simp only: set_map set_upt)
    then obtain j where "j < length h - ?k + 1" and t: "t = take ?k (drop j h)"
      by (auto simp only: image_iff atLeastLessThan_iff)
    then have "j + ?k \<le> length h" using k by linarith
    then show ?thesis using t s by simp
  qed
  have join: "joinOverlapping (tokenizeSlidingWindow h s) = h"
    unfolding eq using k by (rule joinOverlapping_windows)
  from count nth len join show ?thesis by blast
qed

theorem sliding_window_tokens_witness:
  "length ''00112233445566778899aabbccddeeff00112233445566778899aabbccddeeff'' = 64
   \<and> tokenSizeAccepted 3
   \<and> int (length (tokenizeSlidingWindow
         ''00112233445566778899aabbccddeeff00112233445566778899aabbccddeeff'' 3)) = 62
   \<and> joinOverlapping (tokenizeSlidingWindow
         ''00112233445566778899aabbccddeeff00112233445566778899aabbccddeeff'' 3)
       = ''00112233445566778899aabbccddeeff00112233445566778899aabbccddeeff''"
proof -
  have h1: "length ''00112233445566778899aabbccddeeff00112233445566778899aabbccddeeff'' = 64"
    by simp
  have h2: "tokenSizeAccepted 3"
    by (simp add: tokenSizeAccepted_def)
  from sliding_window_tokens [OF h1 h2] show ?thesis
    using h1 h2 by simp
qed

section \<open>Facts about the chunking loop\<close>

lemma chunk_loop_chunks:
  "0 < s \<Longrightarrow> chunk_loop h s (int i) acc = Some (acc @ chunks (nat s) (drop i h))"
proof (induction "length h - i" arbitrary: i acc rule: less_induct)
  case less
  show ?case
  proof (cases "i < length h")
    case True
    have sub: "js_substring h (int i) (int i + s) = take (nat s) (drop i h)"
      using less.prems True by (simp add: js_substring_def Let_def min_def max_def)
    have "chunk_loop h s (int i) acc = chunk_loop h s (int (i + nat s)) (acc @ [take (nat s) (drop i h)])"
      using True less.prems by (subst chunk_loop.simps) (simp add: sub)
    also have "\<dots> = Some ((acc @ [take (nat s) (drop i h)]) @ chunks (nat s) (drop (i + nat s) h))"
      using True less.prems by (intro less.hyps) linarith+
    also have "\<dots> = Some (acc @ chunks (nat s) (drop i h))"
      using True less.prems by (subst (2) chunks.simps) (simp add: add.commute)
    finally show ?thesis .
  next
    case False
    then show ?thesis
      by (subst chunk_loop.simps, subst chunks.simps) simp
  qed
qed

lemma chunk_loop_diverges:
  assumes "s \<le> 0" and "i < int (length h)"
  shows "chunk_loop h s i acc = None"
proof (rule ccontr)
  assume "chunk_loop h s i acc \<noteq> None"
  then obtain y where y: "chunk_loop h s i acc = Some y" by auto
  have "\<not> (s \<le> 0 \<and> i < int (length h))"
  proof (rule chunk_loop.raw_induct
      [where P = "\<lambda>h s i acc y. \<not> (s \<le> 0 \<and> i < int (length h))", OF _ y])
    fix f :: "string \<Rightarrow> int \<Rightarrow> int \<Rightarrow> string list \<Rightarrow> string list option"
    fix cleanHash sz i tokens y
    assume IH: "\<And>h s i acc y. f h s i acc = Some y \<Longrightarrow> \<not> (s \<le> 0 \<and> i < int (length h))"
    assume body: "(if i < int (length cleanHash)
        then f cleanHash sz (i + sz) (tokens @ [js_substring cleanHash i (i + sz)])
        else Some tokens) = Some y"
    show "\<not> (sz \<le> 0 \<and> i < int (length cleanHash))"
    proof
      assume a: "sz \<le> 0 \<and> i < int (length cleanHash)"
      with body have "f cleanHash sz (i + sz) (tokens @ [js_substring cleanHash i (i + sz)]) = Some y"
        by simp
      from IH[OF this] a show False by simp
    qed
  qed
  with assms show False by simp
qed

lemma concat_chunks: "0 < n \<Longrightarrow> concat (chunks n xs) = xs"
proof (induction n xs rule: chunks.induct)
  case (1 n xs)
  then show ?case by (subst chunks.simps) auto
qed

lemma length_chunks: "0 < n \<Longrightarrow> length (chunks n xs) = (length xs + n - 1) div n"
proof (induction n xs rule: chunks.induct)
  case (1 n xs)
  show ?case
  proof (cases "xs = []")
    case True
    then show ?thesis using 1(2) by (subst chunks.simps) simp
  next
    case False
    then have "length (chunks n xs) = Suc ((length (drop n xs) + n - 1) div n)"
      using 1 by (subst chunks.simps) simp
    also have "\<dots> = (length xs + n - 1) div n"
    proof (cases "n \<le> length xs")
      case True
      then have "length xs + n - 1 = (length xs - n + n - 1) + n" using 1(2) by linarith
      then have "(length xs + n - 1) div n = (length xs - n + n - 1) div n + 1"
        using 1(2) by (simp only: div_add_self2)
      then show ?thesis by simp
    next
      case F: False
      with \<open>xs \<noteq> []\<close> have "n \<le> length xs + n - 1" "length xs + n - 1 < 2 * n"
        by (cases xs; simp)+
      then have "(length xs + n - 1) div n = 1"
        using 1(2) by (simp add: div_nat_eqI)
      then show ?thesis using F 1(2) by simp
    qed
    finally show ?thesis .
  qed
qed

lemma chunks_nonempty: "t \<in> set (chunks n xs) \<Longrightarrow> t \<noteq> [] \<and> length t \<le> n"
proof (induction n xs rule: chunks.induct)
  case (1 n xs)
  show ?case
  proof (cases "xs = [] \<or> n = 0")
    case True
    with 1(2) show ?thesis by (subst (asm) chunks.simps) simp
  next
    case False
    then have "chunks n xs = take n xs # chunks n (drop n xs)"
      by (subst chunks.simps) simp
    with 1(2) have "t = take n xs \<or> t \<in> set (chunks n (drop n xs))" by simp
    then show ?thesis
    proof
      assume "t = take n xs"
      then show ?thesis using False by simp
    next
      assume "t \<in> set (chunks n (drop n xs))"
      from 1(1)[OF False this] show ?thesis .
    qed
  qed
qed

lemma chunks_full: "Suc i < length (chunks n xs) \<Longrightarrow> length (chunks n xs ! i) = n"
proof (induction n xs arbitrary: i rule: chunks.induct)
  case (1 n xs)
  show ?case
  proof (cases "xs = [] \<or> n = 0")
    case True
    with 1(2) show ?thesis by (subst (asm) chunks.simps) simp
  next
    case False
    then have eq: "chunks n xs = take n xs # chunks n (drop n xs)"
      by (subst chunks.simps) simp
    show ?thesis
    proof (cases i)
      case 0
      with 1(2) eq have "chunks n (drop n xs) \<noteq> []" by auto
      then have "drop n xs \<noteq> []" by (subst (asm) chunks.simps) (auto split: if_splits)
      then show ?thesis using 0 eq by simp
    next
      case (Suc j)
      with 1(2) eq have "Suc j < length (chunks n (drop n xs))" by simp
      from 1(1)[OF False this] show ?thesis using Suc eq by simp
    qed
  qed
qed

lemma ceil_div_int:
  fixes a s :: int
  assumes "0 < s"
  shows "- (- a div s) = (a + s - 1) div s"
proof -
  define q r where "q = a div s" and "r = a mod s"
  have a: "a = s * q + r" and r: "0 \<le> r" "r < s"
    using assms by (simp_all add: q_def r_def)
  show ?thesis
  proof (cases "r = 0")
    case True
    have "- a div s = - q"
      using a True assms by (intro int_div_pos_eq[where r = 0]) simp_all
    moreover have "(a + s - 1) div s = q"
      using a True assms by (intro int_div_pos_eq[where r = "s - 1"]) simp_all
    ultimately show ?thesis by simp
  next
    case False
    have "- a div s = - q - 1"
      using a r False assms by (intro int_div_pos_eq[where r = "s - r"]) (simp_all add: algebra_simps)
    moreover have "(a + s - 1) div s = q + 1"
      using a r False assms by (intro int_div_pos_eq[where r = "r - 1"]) (simp_all add: algebra_simps)
    ultimately show ?thesis by simp
  qed
qed

lemma ceiling_chunks:
  assumes "0 < s"
  shows "\<lceil>real n / real_of_int s\<rceil> = int ((n + nat s - 1) div nat s)"
proof -
  have "\<lceil>real n / real_of_int s\<rceil> = \<lceil>real_of_int (int n) / real_of_int s\<rceil>" by simp
  also have "\<dots> = - (- int n div s)" by (rule ceiling_divide_eq_div)
  also have "\<dots> = (int n + s - 1) div s" using assms by (rule ceil_div_int)
  also have "\<dots> = int ((n + nat s - 1) div nat s)"
  proof -
    have "int n + s - 1 = int (n + nat s - 1)" using assms by linarith
    moreover have "s = int (nat s)" using assms by simp
    ultimately show ?thesis by (metis zdiv_int)
  qed
  finally show ?thesis .
qed

lemma replace_0x_prefix_hex: "isHexString h \<Longrightarrow> replace_0x_prefix h = h"
proof (cases "startsWith h ''0x''")
  case True
  then obtain rest where "h = CHR ''0'' # CHR ''x'' # rest"
    by (cases h; cases "tl h") (auto simp: startsWith_def)
  moreover assume "isHexString h"
  ultimately show ?thesis by (simp add: isHexString_def)
next
  case False
  then show ?thesis by (simp add: replace_0x_prefix_def)
qed

section \<open>Claims about the chunking tokenizer\<close>

text \<open>
  Claim C2. For every string \<open>h\<close> of hexadecimal digits (so without a prefix) and every
  token size \<open>s \<ge> 1\<close>, which covers the sizes 3 to 64 that the form accepts, the
  chunking tokenizer returns, and what it returns is \<open>\<lceil>len(h) / s\<rceil>\<close> tokens whose
  concatenation is \<open>h\<close>; every token but the last has length \<open>s\<close>, and the last one is
  not empty and not longer than \<open>s\<close>.
\<close>

theorem chunked_tokens:
  assumes "isHexString h" and "0 < s"
  shows "\<exists>ts. tokenizeChunked h s = Some ts
          \<and> int (length ts) = \<lceil>real (length h) / real_of_int s\<rceil>
          \<and> concat ts = h
          \<and> (\<forall>i. Suc i < length ts \<longrightarrow> int (length (ts ! i)) = s)
          \<and> (ts \<noteq> [] \<longrightarrow> last ts \<noteq> [] \<and> int (length (last ts)) \<le> s)"
proof -
  let ?ts = "chunks (nat s) h"
  have k: "0 < nat s" using assms(2) by simp
  have "tokenizeChunked h s = chunk_loop h s (int 0) []"
    using assms(1) by (simp add: tokenizeChunked_def replace_0x_prefix_hex)
  also have "\<dots> = Some ([] @ chunks (nat s) (drop 0 h))"
    using assms(2) by (rule chunk_loop_chunks)
  finally have run: "tokenizeChunked h s = Some ?ts" by simp
  have count: "int (length ?ts) = \<lceil>real (length h) / real_of_int s\<rceil>"
    using assms(2) by (simp only: ceiling_chunks length_chunks[OF k])
  have cat: "concat ?ts = h"
    using k by (rule concat_chunks)
  have full: "\<forall>i. Suc i < length ?ts \<longrightarrow> int (length (?ts ! i)) = s"
    using assms(2) by (simp add: chunks_full)
  have final: "?ts \<noteq> [] \<longrightarrow> last ?ts \<noteq> [] \<and> int (length (last ?ts)) \<le> s"
  proof
    assume "?ts \<noteq> []"
    then have "last ?ts \<in> set ?ts" by simp
    from chunks_nonempty[OF this] show "last ?ts \<noteq> [] \<and> int (length (last ?ts)) \<le> s"
      using assms(2) by auto
  qed
  from run count cat full final show ?thesis by blast
qed

theorem chunked_tokens_witness:
  "isHexString ''abcdefab'' \<and> (0::int) < 3
   \<and> (\<exists>ts. tokenizeChunked ''abcdefab'' 3 = Some ts \<and> int (length ts) = 3
          \<and> concat ts = ''abcdefab'')"
proof -
  have h1: "isHexString ''abcdefab''" by (simp add: isHexString_def)
  have h2: "(0::int) < 3" by simp
  have c: "\<lceil>real (length ''abcdefab'') / real_of_int 3\<rceil> = 3"
    by (simp add: ceiling_eq_iff)
  from chunked_tokens [OF h1 h2] c show ?thesis
    using h1 by auto
qed

section \<open>Facts about the match finders\<close>

lemma userGuessTokens_loop_eq:
  "userGuessTokens_loop c s i st =
   foldl set_add st (map (\<lambda>j. js_substring c j (j + s)) [i..int (length c) - s])"
proof (induction c s i st rule: userGuessTokens_loop.induct)
  case (1 cleanHash1 sz i userGuessTokens)
  show ?case
  proof (cases "i \<le> int (length cleanHash1) - sz")
    case True
    then show ?thesis
      using 1 by (subst userGuessTokens_loop.simps) (simp add: upto_rec1[of i])
  next
    case False
    then show ?thesis by (subst userGuessTokens_loop.simps) simp
  qed
qed

lemma foundMatches_loop_eq:
  "foundMatches_loop c s U i F =
   foldl set_add F (filter (set_has U) (map (\<lambda>j. js_substring c j (j + s)) [i..int (length c) - s]))"
proof (induction c s U i F rule: foundMatches_loop.induct)
  case (1 cleanHash2 sz userGuessTokens i foundMatches)
  show ?case
  proof (cases "i \<le> int (length cleanHash2) - sz")
    case True
    then show ?thesis
      using 1 by (subst foundMatches_loop.simps) (simp add: upto_rec1[of i])
  next
    case False
    then show ?thesis by (subst foundMatches_loop.simps) simp
  qed
qed

lemma set_foldl_set_add: "set (foldl set_add st xs) = set st \<union> set xs"
  by (induction xs arbitrary: st) (auto simp: set_add_def)

lemma foldl_set_add_firstOccurrences: "foldl set_add [] xs = firstOccurrences xs"
proof (induction xs rule: rev_induct)
  case Nil
  then show ?case by (simp add: firstOccurrences_def)
next
  case (snoc x xs)
  have "set (firstOccurrences xs) = set xs" by (simp add: firstOccurrences_def)
  then show ?case
    using snoc by (simp add: set_add_def) (simp add: firstOccurrences_def)
qed

lemma substring_windows:
  assumes "0 < s"
  shows "map (\<lambda>j. js_substring c j (j + s)) [0..int (length c) - s] = tokenizeSlidingWindow c s"
proof -
  have "map (\<lambda>j. js_substring c j (j + s)) [0..int (length c) - s]
        = map (\<lambda>j. js_slice c j (j + s)) [0..int (length c) - s]"
  proof (rule map_cong[OF refl])
    fix j assume "j \<in> set [0..int (length c) - s]"
    then have j: "0 \<le> j" "j + s \<le> int (length c)" by auto
    from j assms show "js_substring c j (j + s) = js_slice c j (j + s)"
      by (simp add: js_substring_window js_slice_window)
  qed
  then show ?thesis by (simp add: tokenizeSlidingWindow_def tokenize_loop_eq)
qed

lemma findMatchingTokens_eq:
  assumes "hash1 \<noteq> []" "hash2 \<noteq> []" "0 < s"
  shows "findMatchingTokens hash1 hash2 s =
         firstOccurrences
           (filter (\<lambda>t. t \<in> set (tokenizeSlidingWindow (removePrefix (toLowerCase hash1)) s))
                   (tokenizeSlidingWindow (removePrefix (toLowerCase hash2)) s))"
proof -
  let ?c1 = "removePrefix (toLowerCase hash1)" and ?c2 = "removePrefix (toLowerCase hash2)"
  have U: "set (userGuessTokens_loop ?c1 s 0 []) = set (tokenizeSlidingWindow ?c1 s)"
    using assms(3) by (simp add: userGuessTokens_loop_eq set_foldl_set_add substring_windows)
  have "findMatchingTokens hash1 hash2 s
        = foundMatches_loop ?c2 s (userGuessTokens_loop ?c1 s 0 []) 0 []"
    using assms by (simp add: findMatchingTokens_def Let_def)
  also have "\<dots> = firstOccurrences (filter (set_has (userGuessTokens_loop ?c1 s 0 []))
                                      (tokenizeSlidingWindow ?c2 s))"
    using assms(3) by (simp only: foundMatches_loop_eq foldl_set_add_firstOccurrences substring_windows)
  also have "filter (set_has (userGuessTokens_loop ?c1 s 0 [])) (tokenizeSlidingWindow ?c2 s)
        = filter (\<lambda>t. t \<in> set (tokenizeSlidingWindow ?c1 s)) (tokenizeSlidingWindow ?c2 s)"
    unfolding set_has_def[abs_def] U ..
  finally show ?thesis .
qed

lemma forEach_match_eq:
  "forEach_match xs n b acc = acc @ filter (\<lambda>(i, t). t \<in> set b) (enumerate n xs)"
  by (induction xs arbitrary: n acc) simp_all

lemma set_findMatchingTokens:
  "set (findMatchingTokens hash1 hash2 s) =
   (if hash1 = [] \<or> hash2 = [] \<or> s \<le> 0 then {}
    else set (tokenizeSlidingWindow (removePrefix (toLowerCase hash1)) s)
       \<inter> set (tokenizeSlidingWindow (removePrefix (toLowerCase hash2)) s))"
proof (cases "hash1 = [] \<or> hash2 = [] \<or> s \<le> 0")
  case True
  then show ?thesis by (simp add: findMatchingTokens_def)
next
  case False
  then have "hash1 \<noteq> []" "hash2 \<noteq> []" "0 < s" by auto
  from findMatchingTokens_eq[OF this] False show ?thesis
    by (auto simp: firstOccurrences_def)
qed

section \<open>Claims about the set-based match finder\<close>

text \<open>
  Claim C3, as stated, fails on the code. For the hashes \<open>abcd\<close> and \<open>bcdabc\<close> and size 3
  the tokens are \<open>[abc, bcd]\<close> and \<open>[bcd, cda, dab, abc]\<close>; \<^verbatim>\<open>findMatchingTokens\<close>
  returns \<open>[bcd, abc]\<close>, the order of the second hash, where the stated policy gives
  \<open>[abc, bcd]\<close>, the order of the first. The inline matcher keeps the order of the first
  sequence but lists a repeated token once for each of its positions.
\<close>

theorem set_policy_order_counterexample:
  "findMatchingTokens ''abcd'' ''bcdabc'' 3 = [''bcd'', ''abc'']
   \<and> map fst (findMatches_SET_spec (tokenizeSlidingWindow ''abcd'' 3)
                                   (tokenizeSlidingWindow ''bcdabc'' 3)) = [''abc'', ''bcd'']
   \<and> matchEntries [''abc'', ''abc''] [''abc''] = [(0, ''abc''), (1, ''abc'')]"
  by (intro conjI; code_simp)

text \<open>
  Claim C3, amended. For non-empty hashes and a positive size, \<^verbatim>\<open>findMatchingTokens\<close>
  returns the tokens of the second (fetched) hash that are tokens of the first, each once,
  in the order of their first occurrence in the second hash, as bare strings without an
  index; as a set this is the intersection of the two token sets. The inline matcher returns,
  in the order of the first (guessed) sequence, every position of that sequence whose token
  occurs in the fetched sequence, with that position as the only index. For \<open>[abc, bcd]\<close>
  against \<open>[xyz, bcd]\<close> it returns the single entry \<open>1:bcd\<close>, and \<open>bcd\<close> is at index 1 of
  both sequences.
\<close>

theorem set_policy_matches:
  "(hash1 \<noteq> [] \<and> hash2 \<noteq> [] \<and> 0 < s \<longrightarrow>
      findMatchingTokens hash1 hash2 s =
        firstOccurrences
          (filter (\<lambda>t. t \<in> set (tokenizeSlidingWindow (removePrefix (toLowerCase hash1)) s))
                  (tokenizeSlidingWindow (removePrefix (toLowerCase hash2)) s))
      \<and> set (findMatchingTokens hash1 hash2 s) =
          set (tokenizeSlidingWindow (removePrefix (toLowerCase hash1)) s)
          \<inter> set (tokenizeSlidingWindow (removePrefix (toLowerCase hash2)) s)
      \<and> distinct (findMatchingTokens hash1 hash2 s))
   \<and> matchEntries a b = filter (\<lambda>(i, t). t \<in> set b) (enumerate 0 a)
   \<and> matchTokens [''abc'', ''bcd''] [''xyz'', ''bcd''] = [''1:bcd'']
   \<and> firstIndex [''abc'', ''bcd''] ''bcd'' = 1
   \<and> firstIndex [''xyz'', ''bcd''] ''bcd'' = 1"
proof -
  have code: "findMatchingTokens hash1 hash2 s =
        firstOccurrences
          (filter (\<lambda>t. t \<in> set (tokenizeSlidingWindow (removePrefix (toLowerCase hash1)) s))
                  (tokenizeSlidingWindow (removePrefix (toLowerCase hash2)) s))
      \<and> set (findMatchingTokens hash1 hash2 s) =
          set (tokenizeSlidingWindow (removePrefix (toLowerCase hash1)) s)
          \<inter> set (tokenizeSlidingWindow (removePrefix (toLowerCase hash2)) s)
      \<and> distinct (findMatchingTokens hash1 hash2 s)"
    if "hash1 \<noteq> []" "hash2 \<noteq> []" "0 < s"
  proof -
    note eq = findMatchingTokens_eq[OF that]
    have "distinct (findMatchingTokens hash1 hash2 s)"
      unfolding eq by (simp add: firstOccurrences_def)
    moreover have "set (findMatchingTokens hash1 hash2 s) =
          set (tokenizeSlidingWindow (removePrefix (toLowerCase hash1)) s)
          \<inter> set (tokenizeSlidingWindow (removePrefix (toLowerCase hash2)) s)"
      using that by (simp add: set_findMatchingTokens)
    ultimately show ?thesis using eq by simp
  qed
  have entries: "matchEntries a b = filter (\<lambda>(i, t). t \<in> set b) (enumerate 0 a)"
    by (simp add: matchEntries_def forEach_match_eq)
  have scenario: "matchTokens [''abc'', ''bcd''] [''xyz'', ''bcd''] = [''1:bcd'']"
    by code_simp
  have i1: "firstIndex [''abc'', ''bcd''] ''bcd'' = 1"
    by (simp add: firstIndex_def)
  have i2: "firstIndex [''xyz'', ''bcd''] ''bcd'' = 1"
    by (simp add: firstIndex_def)
  from code entries scenario i1 i2 show ?thesis by blast
qed

theorem set_policy_matches_witness:
  "''abcd'' \<noteq> [] \<and> ''bcdabc'' \<noteq> [] \<and> (0::int) < 3
   \<and> set (findMatchingTokens ''abcd'' ''bcdabc'' 3) =
       set (tokenizeSlidingWindow (removePrefix (toLowerCase ''abcd'')) 3)
       \<inter> set (tokenizeSlidingWindow (removePrefix (toLowerCase ''bcdabc'')) 3)
   \<and> distinct (findMatchingTokens ''abcd'' ''bcdabc'' 3)"
proof -
  have h: "''abcd'' \<noteq> [] \<and> ''bcdabc'' \<noteq> [] \<and> (0::int) < 3"
    by simp
  from set_policy_matches [of "''abcd''" "''bcdabc''" 3 "[]" "[]"] h
  show ?thesis by blast
qed

text \<open>
  Claim C5. The set of values that \<^verbatim>\<open>findMatchingTokens\<close> returns does not change when
  its two hashes are exchanged. The function reads nothing but its arguments and fills two
  sets that it creates itself, so it is a function of its arguments and a repeated call
  with the same inputs returns the same list.
\<close>

theorem findMatchingTokens_symmetric:
  "set (findMatchingTokens hash1 hash2 s) = set (findMatchingTokens hash2 hash1 s)
   \<and> findMatchingTokens hash1 hash2 s = findMatchingTokens hash1 hash2 s"
  by (auto simp: set_findMatchingTokens)

text \<open>
  Claim C10. When either hash is the empty string or the size is not positive,
  \<^verbatim>\<open>findMatchingTokens\<close> returns the empty list: the guard is its first statement and
  nothing is raised or computed before it.
\<close>

theorem findMatchingTokens_degenerate:
  "hash1 = [] \<or> hash2 = [] \<or> s \<le> 0 \<Longrightarrow> findMatchingTokens hash1 hash2 s = []"
  by (simp add: findMatchingTokens_def)

theorem findMatchingTokens_degenerate_witness:
  "('''' = ([] :: string) \<or> ''ab12'' = [] \<or> (3::int) \<le> 0)
   \<and> findMatchingTokens '''' ''ab12'' 3 = []
   \<and> (''ab12'' = [] \<or> ''ab12'' = [] \<or> (0::int) \<le> 0)
   \<and> findMatchingTokens ''ab12'' ''ab12'' 0 = []"
  using findMatchingTokens_degenerate [of "''''" "''ab12''" 3]
        findMatchingTokens_degenerate [of "''ab12''" "''ab12''" 0]
  by simp

section \<open>Claims about the block-distance classification\<close>

lemma indication_fetch_classify:
  "indication (calculateBlockRangeIndication_fetch d) = classify d (2, 10, 256)"
  by (simp add: calculateBlockRangeIndication_fetch_def classify_def)

lemma indication_verify_classify:
  "indication (calculateBlockRangeIndication d isComplex) =
   classify d (if isComplex then (32, 64, 96) else (64, 128, 192))"
  by (simp add: calculateBlockRangeIndication_def classify_def Let_def)

lemma classify_mono:
  "d1 \<le> d2 \<Longrightarrow> bucketNumber (classify d1 (t1, t2, t3)) \<le> bucketNumber (classify d2 (t1, t2, t3))"
  by (simp add: classify_def)

text \<open>
  Claim C6. For every triple of limits, a larger distance is never put into a bucket with a
  smaller number; this holds for the chain of comparisons with the limits as parameter and
  so for both functions of the source, whose indication is that chain at their own limits.
  With the limits 2, 10 and 256, distance 5 is in the second bucket (light green) and
  distance 500 in the fourth (dark red).
\<close>

theorem classify_monotonic:
  "(d1 \<le> d2 \<longrightarrow>
      bucketNumber (classify d1 (t1, t2, t3)) \<le> bucketNumber (classify d2 (t1, t2, t3)))
   \<and> (d1 \<le> d2 \<longrightarrow>
      bucketNumber (indication (calculateBlockRangeIndication_fetch d1))
        \<le> bucketNumber (indication (calculateBlockRangeIndication_fetch d2)))
   \<and> (d1 \<le> d2 \<longrightarrow>
      bucketNumber (indication (calculateBlockRangeIndication d1 isComplex))
        \<le> bucketNumber (indication (calculateBlockRangeIndication d2 isComplex)))
   \<and> indication (calculateBlockRangeIndication_fetch d1) = classify d1 (2, 10, 256)
   \<and> classify 5 (2, 10, 256) = LightGreen
   \<and> bucketNumber (classify 5 (2, 10, 256)) = 2
   \<and> classify 500 (2, 10, 256) = DarkRed
   \<and> bucketNumber (classify 500 (2, 10, 256)) = 4
   \<and> indication (calculateBlockRangeIndication_fetch 5) = LightGreen
   \<and> indication (calculateBlockRangeIndication_fetch 500) = DarkRed"
proof -
  have a: "d1 \<le> d2 \<longrightarrow>
      bucketNumber (classify d1 (t1, t2, t3)) \<le> bucketNumber (classify d2 (t1, t2, t3))"
    by (simp add: classify_mono)
  have b: "d1 \<le> d2 \<longrightarrow>
      bucketNumber (indication (calculateBlockRangeIndication_fetch d1))
        \<le> bucketNumber (indication (calculateBlockRangeIndication_fetch d2))"
    unfolding indication_fetch_classify by (simp add: classify_mono)
  have c: "d1 \<le> d2 \<longrightarrow>
      bucketNumber (indication (calculateBlockRangeIndication d1 isComplex))
        \<le> bucketNumber (indication (calculateBlockRangeIndication d2 isComplex))"
    unfolding indication_verify_classify by (cases isComplex) (simp_all add: classify_mono)
  have d: "classify 5 (2, 10, 256) = LightGreen" "bucketNumber (classify 5 (2, 10, 256)) = 2"
    "classify 500 (2, 10, 256) = DarkRed" "bucketNumber (classify 500 (2, 10, 256)) = 4"
    by (simp_all add: classify_def)
  have e: "indication (calculateBlockRangeIndication_fetch 5) = LightGreen"
    "indication (calculateBlockRangeIndication_fetch 500) = DarkRed"
    by (simp_all add: calculateBlockRangeIndication_fetch_def)
  from a b c d e indication_fetch_classify [of d1] show ?thesis by blast
qed

theorem classify_monotonic_witness:
  "(5::int) \<le> 500
   \<and> bucketNumber (classify 5 (2, 10, 256)) \<le> bucketNumber (classify 500 (2, 10, 256))
   \<and> bucketNumber (indication (calculateBlockRangeIndication_fetch 5))
        \<le> bucketNumber (indication (calculateBlockRangeIndication_fetch 500))
   \<and> bucketNumber (indication (calculateBlockRangeIndication 5 True))
        \<le> bucketNumber (indication (calculateBlockRangeIndication 500 True))"
proof -
  have h: "(5::int) \<le> 500" by simp
  from classify_monotonic [of 5 500 2 10 256 True] h show ?thesis by blast
qed

section \<open>Claims about the positional comparison\<close>

lemma every_equal_at_iff:
  "every_equal_at u i f \<longleftrightarrow> u = take (length u) (drop i f)"
proof (induction u arbitrary: i)
  case Nil
  then show ?case by simp
next
  case (Cons t rest)
  show ?case
  proof (cases "i < length f")
    case True
    then have "drop i f = f ! i # drop (Suc i) f" by (simp add: Cons_nth_drop_Suc)
    then show ?thesis using Cons True by auto
  next
    case False
    then show ?thesis by simp
  qed
qed

lemma isMatch_iff: "isMatch userTokens fetchedTokens \<longleftrightarrow> userTokens = fetchedTokens"
  by (auto simp: isMatch_def every_equal_at_iff)

lemma blockHash_split:
  assumes "isBlockHash h"
  shows "h = CHR ''0'' # CHR ''x'' # drop 2 h"
proof -
  from assms have "take 2 h = ''0x''"
    by (simp add: isBlockHash_def startsWith_def numeral_2_eq_2)
  then have "take 2 h @ drop 2 h = ''0x'' @ drop 2 h" by simp
  then show ?thesis by simp
qed

lemma replace_first_0x_blockHash:
  assumes "isBlockHash h"
  shows "replace_first_0x h = drop 2 h"
proof -
  have "replace_first_0x (CHR ''0'' # CHR ''x'' # drop 2 h) = drop 2 h"
    by (simp add: startsWith_def)
  with blockHash_split[OF assms] show ?thesis by simp
qed

lemma replace_0x_prefix_blockHash:
  assumes "isBlockHash h"
  shows "replace_0x_prefix h = drop 2 h"
  using assms by (simp add: replace_0x_prefix_def isBlockHash_def)

lemma hexDigit_not_terminator:
  "c \<in> set ''0123456789abcdefABCDEF'' \<Longrightarrow> \<not> isLineTerminator c"
  by (auto simp: isLineTerminator_def)

lemma regexChunks_chunks:
  "0 < n \<Longrightarrow> \<forall>c \<in> set str. \<not> isLineTerminator c \<Longrightarrow> regexChunks n str = chunks n str"
proof (induction n str rule: chunks.induct)
  case (1 n xs)
  show ?case
  proof (cases "xs = []")
    case True
    then show ?thesis by (subst regexChunks.simps, subst chunks.simps) simp
  next
    case False
    have all: "\<forall>c \<in> set (take n xs). \<not> isLineTerminator c"
      using 1(3) by (auto dest: in_set_takeD)
    then have run: "takeWhile (\<lambda>c. \<not> isLineTerminator c) (take n xs) = take n xs"
      by (simp add: takeWhile_eq_all_conv)
    have ne: "take n xs \<noteq> []" using False 1(2) by simp
    have dr: "drop (min (length xs) n) xs = drop n xs"
      by (cases "n \<le> length xs") (simp_all add: min_def)
    have rest: "regexChunks n (drop n xs) = chunks n (drop n xs)"
      using False 1 by (intro 1(1)) (auto dest: in_set_dropD)
    have "regexChunks n xs = take n xs # regexChunks n (drop n xs)"
      using False ne by (subst regexChunks.simps) (simp add: run dr)
    also have "\<dots> = chunks n xs"
      unfolding rest using False 1(2) by (subst (2) chunks.simps) simp
    finally show ?thesis .
  qed
qed

lemma chunks_take:
  "0 < n \<Longrightarrow> chunks n (take (n * k) xs) = take k (chunks n xs)"
proof (induction k arbitrary: xs)
  case 0
  then show ?case by (subst chunks.simps) simp
next
  case (Suc k)
  show ?case
  proof (cases "xs = []")
    case True
    then show ?thesis by (subst chunks.simps, subst chunks.simps) simp
  next
    case False
    have ne: "take (n * Suc k) xs \<noteq> []" using False Suc.prems by simp
    have "chunks n (take (n * Suc k) xs)
          = take n (take (n * Suc k) xs) # chunks n (drop n (take (n * Suc k) xs))"
      using ne Suc.prems by (subst chunks.simps) simp
    also have "take n (take (n * Suc k) xs) = take n xs"
      by (simp add: min_def)
    also have "drop n (take (n * Suc k) xs) = take (n * k) (drop n xs)"
      by (simp add: drop_take)
    also have "chunks n (take (n * k) (drop n xs)) = take k (chunks n (drop n xs))"
      using Suc.prems by (rule Suc.IH)
    also have "take n xs # take k (chunks n (drop n xs)) = take (Suc k) (chunks n xs)"
      using False Suc.prems by (subst (2) chunks.simps) simp
    finally show ?thesis .
  qed
qed

lemma js_substring_from_0: "0 \<le> e \<Longrightarrow> js_substring str 0 e = take (nat e) str"
  by (cases "e \<le> int (length str)") (simp_all add: js_substring_def Let_def min_def max_def)

lemma fetchedTokensOf_blockHash:
  assumes "isBlockHash h" and "0 < ts"
  shows "fetchedTokensOf h ts u = Inr (take (length u) (chunks (nat ts) (drop 2 h)))"
proof -
  have n: "0 < nat ts" using assms(2) by simp
  have cut: "nat (ts * int (length u)) = nat ts * length u"
    using assms(2) by (simp add: nat_mult_distrib)
  from assms(1) have "isHexString (drop 2 h)"
    by (simp add: isBlockHash_def)
  then have hex: "\<forall>c \<in> set (drop 2 h). \<not> isLineTerminator c"
    unfolding isHexString_def using hexDigit_not_terminator by blast
  then have hex': "\<forall>c \<in> set (take (nat ts * length u) (drop 2 h)). \<not> isLineTerminator c"
    by (auto dest: in_set_takeD)
  have "fetchedTokensOf h ts u
        = Inr (regexChunks (nat ts) (js_substring (drop 2 h) 0 (ts * int (length u))))"
    using assms(2) by (simp add: fetchedTokensOf_def replace_first_0x_blockHash[OF assms(1)])
  also have "js_substring (drop 2 h) 0 (ts * int (length u)) = take (nat ts * length u) (drop 2 h)"
    using assms(2) cut by (simp add: js_substring_from_0)
  also have "regexChunks (nat ts) (take (nat ts * length u) (drop 2 h))
        = chunks (nat ts) (take (nat ts * length u) (drop 2 h))"
    using n hex' by (rule regexChunks_chunks)
  also have "\<dots> = take (length u) (chunks (nat ts) (drop 2 h))"
    using n by (rule chunks_take)
  finally show ?thesis .
qed

lemma tokenizeChunked_blockHash:
  assumes "isBlockHash h" and "0 < ts"
  shows "tokenizeChunked h ts = Some (chunks (nat ts) (drop 2 h))"
proof -
  have "tokenizeChunked h ts = chunk_loop (drop 2 h) ts (int 0) []"
    using assms(1) by (simp add: tokenizeChunked_def replace_0x_prefix_blockHash)
  also have "\<dots> = Some ([] @ chunks (nat ts) (drop 0 (drop 2 h)))"
    using assms(2) by (rule chunk_loop_chunks)
  finally show ?thesis by simp
qed

text \<open>
  A guess stored without tokens: \<^verbatim>\<open>storedGuessData.tokens || []\<close> is the empty array,
  the hash is cut to nothing, and \<^verbatim>\<open>every\<close> on an empty array is true. The other two
  verification paths, which ask for \<^verbatim>\<open>matches.length > 0\<close>, find no match for such a
  guess.
\<close>

lemma verifyTokens_without_tokens:
  assumes "isBlockHash h" and "0 < ts"
  shows "verifyTokens [] h ts = Inr True"
  by (simp add: verifyTokens_def fetchedTokensOf_blockHash[OF assms] isMatch_iff)

text \<open>
  Claim C4, as stated, fails on the code. The comparison is not cut to the shorter
  sequence: \<open>[ab, cd]\<close> against \<open>[ab]\<close> agree at the one shared index, and the code, which
  asks for equal lengths first, says no match. The same happens in \<^verbatim>\<open>handleVerify\<close> as a
  whole: three stored tokens whose first two are the two 32-character tokens of the block
  hash are not verified.
\<close>

theorem positional_policy_counterexample:
  "positionalMatch_spec [''ab'', ''cd''] [''ab'']
   \<and> \<not> isMatch [''ab'', ''cd''] [''ab'']
   \<and> tokenizeChunked ''0xff00112233445566778899aabbccddeeff00112233445566778899aabbccddee'' 32
       = Some [''ff00112233445566778899aabbccddee'', ''ff00112233445566778899aabbccddee'']
   \<and> positionalMatch_spec
         [''ff00112233445566778899aabbccddee'', ''ff00112233445566778899aabbccddee'', ''0123'']
         [''ff00112233445566778899aabbccddee'', ''ff00112233445566778899aabbccddee'']
   \<and> verifyTokens
         [''ff00112233445566778899aabbccddee'', ''ff00112233445566778899aabbccddee'', ''0123'']
         ''0xff00112233445566778899aabbccddeeff00112233445566778899aabbccddee'' 32
       = Inr False"
  by (intro conjI; code_simp)

text \<open>
  Claim C4, amended. For a stored token sequence that is not empty, the positional
  comparison of \<^verbatim>\<open>handleVerify\<close> succeeds exactly when the stored tokens and the fetched
  tokens have the same length and the same token at every index. Sequences of different
  lengths never match: nothing is cut to the shorter one. The fetched tokens are cut on
  the side of the hash only: for a block hash and a positive token size they are the first
  \<open>|a|\<close> chunks of the hash, so the stored tokens are verified exactly when they are the
  first \<open>|a|\<close> tokens of the hash.
\<close>

theorem positional_match_is_equality:
  "(userTokens \<noteq> [] \<longrightarrow>
      (isMatch userTokens fetchedTokens \<longleftrightarrow>
         length userTokens = length fetchedTokens
         \<and> (\<forall>i < length userTokens. userTokens ! i = fetchedTokens ! i)))
   \<and> (length userTokens \<noteq> length fetchedTokens \<longrightarrow> \<not> isMatch userTokens fetchedTokens)
   \<and> (userTokens \<noteq> [] \<longrightarrow>
        verifyTokens userTokens finalBlockHash tokenSize =
          (case fetchedTokensOf finalBlockHash tokenSize userTokens of
             Inl e \<Rightarrow> Inl e
           | Inr fetched \<Rightarrow> Inr (userTokens = fetched)))
   \<and> (userTokens \<noteq> [] \<and> isBlockHash finalBlockHash \<and> 0 < tokenSize \<longrightarrow>
        (\<exists>b. tokenizeChunked finalBlockHash tokenSize = Some b
           \<and> fetchedTokensOf finalBlockHash tokenSize userTokens
               = Inr (take (length userTokens) b)
           \<and> verifyTokens userTokens finalBlockHash tokenSize
               = Inr (userTokens = take (length userTokens) b)))"
proof -
  have a: "isMatch userTokens fetchedTokens \<longleftrightarrow>
      length userTokens = length fetchedTokens
      \<and> (\<forall>i < length userTokens. userTokens ! i = fetchedTokens ! i)"
    unfolding isMatch_iff by (auto simp: list_eq_iff_nth_eq)
  have c: "length userTokens \<noteq> length fetchedTokens \<longrightarrow> \<not> isMatch userTokens fetchedTokens"
    by (auto simp: isMatch_iff)
  have d: "verifyTokens userTokens finalBlockHash tokenSize =
       (case fetchedTokensOf finalBlockHash tokenSize userTokens of
          Inl e \<Rightarrow> Inl e
        | Inr fetched \<Rightarrow> Inr (userTokens = fetched))"
    by (simp add: verifyTokens_def isMatch_iff split: sum.splits)
  have e: "\<exists>b. tokenizeChunked finalBlockHash tokenSize = Some b
           \<and> fetchedTokensOf finalBlockHash tokenSize userTokens
               = Inr (take (length userTokens) b)
           \<and> verifyTokens userTokens finalBlockHash tokenSize
               = Inr (userTokens = take (length userTokens) b)"
    if "isBlockHash finalBlockHash" and "0 < tokenSize"
  proof -
    note f = fetchedTokensOf_blockHash[OF that, of userTokens]
    have "verifyTokens userTokens finalBlockHash tokenSize
          = Inr (userTokens = take (length userTokens)
                   (chunks (nat tokenSize) (drop 2 finalBlockHash)))"
      by (simp add: verifyTokens_def f isMatch_iff)
    with tokenizeChunked_blockHash[OF that] f show ?thesis by blast
  qed
  from a c d e show ?thesis by blast
qed

theorem positional_match_is_equality_witness:
  "[''ab'', ''cd''] \<noteq> ([] :: string list)
   \<and> length [''ab'', ''cd''] \<noteq> length [''ab''] \<and> \<not> isMatch [''ab'', ''cd''] [''ab'']
   \<and> isBlockHash ''0xff00112233445566778899aabbccddeeff00112233445566778899aabbccddee''
   \<and> (0::int) < 32
   \<and> (\<exists>b. tokenizeChunked
               ''0xff00112233445566778899aabbccddeeff00112233445566778899aabbccddee'' 32 = Some b
          \<and> verifyTokens [''ab'', ''cd'']
               ''0xff00112233445566778899aabbccddeeff00112233445566778899aabbccddee'' 32
              = Inr ([''ab'', ''cd''] = take (length [''ab'', ''cd'']) b))"
proof -
  have h0: "[''ab'', ''cd''] \<noteq> ([] :: string list)" by simp
  have h1: "length [''ab'', ''cd''] \<noteq> length [''ab'']" by simp
  have h2: "isBlockHash ''0xff00112233445566778899aabbccddeeff00112233445566778899aabbccddee''"
    by code_simp
  have h3: "(0::int) < 32" by simp
  from positional_match_is_equality [of "[''ab'', ''cd'']" "[''ab'']"
         "''0xff00112233445566778899aabbccddeeff00112233445566778899aabbccddee''" 32]
       h0 h1 h2 h3
  show ?thesis by blast
qed

section \<open>Claims about the complex-mode block derivation\<close>

lemma digitPlace_table:
  "map digitPlace ''0123456789abcdefABCDEF'' =
     [0, 1, 2, 3, 4, 5, 6, 7, 8, 9, 10, 11, 12, 13, 14, 15, 10, 11, 12, 13, 14, 15]"
  by code_simp

lemma hexDigit_value:
  assumes "c \<in> set ''0123456789abcdefABCDEF''"
  shows "hexDigitValue c = Some (digitPlace c) \<and> 0 \<le> digitPlace c \<and> digitPlace c < 16"
proof -
  have "\<forall>c \<in> set ''0123456789abcdefABCDEF''.
          hexDigitValue c = Some (digitPlace c) \<and> 0 \<le> digitPlace c \<and> digitPlace c < 16"
    by code_simp
  with assms show ?thesis by blast
qed

lemma hexDigit_plain:
  assumes "c \<in> set ''0123456789abcdefABCDEF''"
  shows "\<not> isWhiteSpace c \<and> c \<noteq> CHR ''-'' \<and> c \<noteq> CHR ''+'' \<and> c \<noteq> CHR ''x'' \<and> c \<noteq> CHR ''X''"
  using assms by (auto simp: isWhiteSpace_def)

lemma parseInt16_two_digits:
  assumes "hexDigitValue c1 = Some v1" and "hexDigitValue c2 = Some v2"
    and "\<not> isWhiteSpace c1" and "c1 \<noteq> CHR ''-''" and "c1 \<noteq> CHR ''+''"
    and "c2 \<noteq> CHR ''x''" and "c2 \<noteq> CHR ''X''"
  shows "parseInt16 [c1, c2] = Some (16 * v1 + v2)"
  using assms by (simp add: parseInt16_def startsWith_def Let_def)

lemma blockHash_byte:
  assumes "isBlockHash h"
  shows "js_slice h 2 4 = take 2 (drop 2 h)
       \<and> parseInt16 (js_slice h 2 4) = Some (firstByteValue h)
       \<and> 0 \<le> firstByteValue h \<and> firstByteValue h < 256"
proof -
  from assms have len: "length h = 66" and hex: "isHexString (drop 2 h)"
    by (simp_all add: isBlockHash_def)
  have cut: "js_slice h 2 4 = take 2 (drop 2 h)"
    using len by (simp add: js_slice_def Let_def)
  have "take 2 (drop 2 h) = [h ! 2, h ! 3]"
    using len by (simp add: take_Suc_conv_app_nth numeral_2_eq_2 numeral_3_eq_3)
  with cut have slice: "js_slice h 2 4 = [h ! 2, h ! 3]" by simp
  have "drop 2 h ! 0 \<in> set (drop 2 h)" "drop 2 h ! 1 \<in> set (drop 2 h)"
    using len by (simp_all only: nth_mem length_drop)
  then have "h ! 2 \<in> set (drop 2 h)" "h ! 3 \<in> set (drop 2 h)"
    using len by (simp_all add: numeral_3_eq_3)
  with hex have d2: "h ! 2 \<in> set ''0123456789abcdefABCDEF''"
    and d3: "h ! 3 \<in> set ''0123456789abcdefABCDEF''"
    unfolding isHexString_def by blast+
  note v1 = hexDigit_value[OF d2] and v2 = hexDigit_value[OF d3]
  have "parseInt16 [h ! 2, h ! 3] = Some (16 * digitPlace (h ! 2) + digitPlace (h ! 3))"
    using v1 v2 hexDigit_plain[OF d2] hexDigit_plain[OF d3]
    by (intro parseInt16_two_digits) simp_all
  then have parse: "parseInt16 (js_slice h 2 4) = Some (firstByteValue h)"
    by (simp add: slice firstByteValue_def)
  have "0 \<le> firstByteValue h" "firstByteValue h < 256"
    unfolding firstByteValue_def using v1 v2 by linarith+
  with cut parse show ?thesis by simp
qed

lemma js_rem_nonneg: "0 \<le> a \<Longrightarrow> 0 < b \<Longrightarrow> js_rem a b = a mod b"
  by (cases "a = 0") (simp_all add: js_rem_def)

text \<open>
  Claim C7, as stated, fails on the code. For a block hash whose first byte is \<open>ff\<close> and
  the target block 5 the derivation of \<^verbatim>\<open>fetchTargetBlockHash\<close> gives the block number
  \<open>- 250\<close>: the negative number is the result, and nothing is raised.
\<close>

theorem derived_block_negative_counterexample:
  "isBlockHash ''0xff00112233445566778899aabbccddeeff00112233445566778899aabbccddee''
   \<and> randomBlockNumber (deriveRandomBlock_fetch
         ''0xff00112233445566778899aabbccddeeff00112233445566778899aabbccddee'' 5)
       = Some (- 250)"
  by (intro conjI; code_simp)

text \<open>
  Claim C7, amended. For every block hash, with \<open>b\<close> the value of its first byte, the two
  hexadecimal digits that follow \<^verbatim>\<open>0x\<close>: \<^verbatim>\<open>fetchTargetBlockHash\<close> reads \<open>b\<close>,
  computes the offset \<open>b % 256\<close> and the derived block \<open>targetBlock - offset\<close>;
  \<^verbatim>\<open>handleVerify\<close> reads the same \<open>b\<close>, computes the offset \<open>b % 100 + 1\<close> and the
  derived block likewise. The derived block is not negative when the target block is at
  least the modulus (256 and 100). When the target block is below the offset the derived
  block is negative, and it is the result all the same: no comparison with zero is made.
\<close>

theorem derived_block_unchecked:
  assumes "isBlockHash targetHash"
  shows "0 \<le> firstByteValue targetHash \<and> firstByteValue targetHash < 256
     \<and> byteHex (deriveRandomBlock_fetch targetHash targetBlockCount) = take 2 (drop 2 targetHash)
     \<and> byteValue (deriveRandomBlock_fetch targetHash targetBlockCount)
         = Some (firstByteValue targetHash)
     \<and> adjustedPosition (deriveRandomBlock_fetch targetHash targetBlockCount)
         = Some (firstByteValue targetHash mod 256)
     \<and> randomBlockNumber (deriveRandomBlock_fetch targetHash targetBlockCount)
         = Some (targetBlockCount - firstByteValue targetHash mod 256)
     \<and> byteHex (deriveRandomBlock_verify targetHash targetBlockCount) = take 2 (drop 2 targetHash)
     \<and> byteValue (deriveRandomBlock_verify targetHash targetBlockCount)
         = Some (firstByteValue targetHash)
     \<and> adjustedPosition (deriveRandomBlock_verify targetHash targetBlockCount)
         = Some (firstByteValue targetHash mod 100 + 1)
     \<and> randomBlockNumber (deriveRandomBlock_verify targetHash targetBlockCount)
         = Some (targetBlockCount - (firstByteValue targetHash mod 100 + 1))
     \<and> (256 \<le> targetBlockCount \<longrightarrow>
          (\<exists>d. randomBlockNumber (deriveRandomBlock_fetch targetHash targetBlockCount) = Some d
               \<and> 0 \<le> d))
     \<and> (100 \<le> targetBlockCount \<longrightarrow>
          (\<exists>d. randomBlockNumber (deriveRandomBlock_verify targetHash targetBlockCount) = Some d
               \<and> 0 \<le> d))
     \<and> (targetBlockCount < firstByteValue targetHash mod 256 \<longrightarrow>
          (\<exists>d. randomBlockNumber (deriveRandomBlock_fetch targetHash targetBlockCount) = Some d
               \<and> d < 0))"
proof -
  let ?b = "firstByteValue targetHash"
  from blockHash_byte[OF assms]
  have cut: "js_slice targetHash 2 4 = take 2 (drop 2 targetHash)"
    and parse: "parseInt16 (js_slice targetHash 2 4) = Some ?b"
    and b: "0 \<le> ?b" "?b < 256"
    by blast+
  have r256: "js_rem ?b 256 = ?b mod 256" and r100: "js_rem ?b 100 = ?b mod 100"
    using b(1) by (simp_all add: js_rem_nonneg)
  have f: "byteHex (deriveRandomBlock_fetch targetHash targetBlockCount) = take 2 (drop 2 targetHash)"
    "byteValue (deriveRandomBlock_fetch targetHash targetBlockCount) = Some ?b"
    "adjustedPosition (deriveRandomBlock_fetch targetHash targetBlockCount) = Some (?b mod 256)"
    "randomBlockNumber (deriveRandomBlock_fetch targetHash targetBlockCount)
       = Some (targetBlockCount - ?b mod 256)"
    by (simp_all add: deriveRandomBlock_fetch_def Let_def parse r256) (simp add: cut)
  have v: "byteHex (deriveRandomBlock_verify targetHash targetBlockCount) = take 2 (drop 2 targetHash)"
    "byteValue (deriveRandomBlock_verify targetHash targetBlockCount) = Some ?b"
    "adjustedPosition (deriveRandomBlock_verify targetHash targetBlockCount) = Some (?b mod 100 + 1)"
    "randomBlockNumber (deriveRandomBlock_verify targetHash targetBlockCount)
       = Some (targetBlockCount - (?b mod 100 + 1))"
    by (simp_all add: deriveRandomBlock_verify_def Let_def parse r100) (simp add: cut)
  have m256: "?b mod 256 < 256" and m100: "?b mod 100 < 100" by simp_all
  have n1: "256 \<le> targetBlockCount \<longrightarrow>
      (\<exists>d. randomBlockNumber (deriveRandomBlock_fetch targetHash targetBlockCount) = Some d
           \<and> 0 \<le> d)"
    unfolding f(4) using m256 by auto
  have n2: "100 \<le> targetBlockCount \<longrightarrow>
      (\<exists>d. randomBlockNumber (deriveRandomBlock_verify targetHash targetBlockCount) = Some d
           \<and> 0 \<le> d)"
    unfolding v(4) using m100 by auto
  have n3: "targetBlockCount < ?b mod 256 \<longrightarrow>
      (\<exists>d. randomBlockNumber (deriveRandomBlock_fetch targetHash targetBlockCount) = Some d
           \<and> d < 0)"
    unfolding f(4) by auto
  from b f v n1 n2 n3 show ?thesis by blast
qed

theorem derived_block_unchecked_witness:
  "isBlockHash ''0xff00112233445566778899aabbccddeeff00112233445566778899aabbccddee''
   \<and> firstByteValue ''0xff00112233445566778899aabbccddeeff00112233445566778899aabbccddee'' = 255
   \<and> byteValue (deriveRandomBlock_fetch
         ''0xff00112233445566778899aabbccddeeff00112233445566778899aabbccddee'' 300) = Some 255
   \<and> randomBlockNumber (deriveRandomBlock_fetch
         ''0xff00112233445566778899aabbccddeeff00112233445566778899aabbccddee'' 300) = Some 45
   \<and> randomBlockNumber (deriveRandomBlock_verify
         ''0xff00112233445566778899aabbccddeeff00112233445566778899aabbccddee'' 300) = Some 244
   \<and> (256::int) \<le> 300 \<and> (100::int) \<le> 300"
proof -
  have h: "isBlockHash ''0xff00112233445566778899aabbccddeeff00112233445566778899aabbccddee''"
    by code_simp
  have b: "firstByteValue ''0xff00112233445566778899aabbccddeeff00112233445566778899aabbccddee''
           = 255"
    by code_simp
  from derived_block_unchecked [OF h, of 300] h b show ?thesis by simp
qed

section \<open>Claims about invalid token sizes\<close>






lemma tokenizeChunked_diverges:
  assumes "s \<le> 0" and "replace_0x_prefix h \<noteq> []"
  shows "tokenizeChunked h s = None"
  unfolding tokenizeChunked_def using assms by (intro chunk_loop_diverges) simp_all




section \<open>Claims about prefix removal\<close>

lemma removePrefix_eq: "removePrefix input = (if startsWith input ''0x'' then drop 2 input else input)"
proof (cases "startsWith input ''0x''")
  case True
  then have "2 \<le> length input"
    by (cases input; cases "tl input") (auto simp: startsWith_def)
  then show ?thesis
    using True by (simp add: removePrefix_def js_slice_def Let_def)
next
  case False
  then show ?thesis by (simp add: removePrefix_def)
qed

text \<open>
  Claim C9, as stated, fails on the code. An upper-case prefix is not removed: for
  \<open>0X12\<close> the specification gives \<open>12\<close> and \<^verbatim>\<open>removePrefix\<close> returns \<open>0X12\<close>. Nothing is
  checked: the empty string is returned as it is where the specification asks for a
  \<^verbatim>\<open>FormatError\<close>, and \<open>0x12\<close> gives \<open>12\<close>.
\<close>

theorem normalize_counterexample:
  "normalize_spec ''0X12'' = Inr ''12''
   \<and> removePrefix ''0X12'' = ''0X12''
   \<and> normalize_spec '''' = Inl FormatError
   \<and> removePrefix '''' = ''''
   \<and> removePrefix ''0x12'' = ''12''"
  by (intro conjI; code_simp)

text \<open>
  Claim C9, amended. \<^verbatim>\<open>removePrefix\<close>, and likewise the replacement at the head of the
  chunking tokenizer, removes a leading lower-case \<open>0x\<close> and returns every other string
  as it is; it checks neither the characters nor the length and raises nothing. For
  \<open>0x\<close> followed by 64 hexadecimal digits it returns the 64 digits; a string that begins
  with \<open>0X\<close> is returned whole; \<open>0x12\<close> gives \<open>12\<close>.
\<close>

theorem removePrefix_only_strips:
  "removePrefix input = (if startsWith input ''0x'' then drop 2 input else input)
   \<and> replace_0x_prefix input = removePrefix input
   \<and> (isHexString body \<and> length body = 64 \<longrightarrow>
        removePrefix (''0x'' @ body) = body \<and> length (removePrefix (''0x'' @ body)) = 64)
   \<and> removePrefix (''0X'' @ body) = ''0X'' @ body
   \<and> removePrefix ''0x12'' = ''12''"
proof -
  have a: "removePrefix input = (if startsWith input ''0x'' then drop 2 input else input)"
    by (rule removePrefix_eq)
  have b: "replace_0x_prefix input = removePrefix input"
    by (simp add: removePrefix_eq replace_0x_prefix_def)
  have c: "removePrefix (''0x'' @ body) = body"
    by (simp add: removePrefix_eq startsWith_def)
  have d: "removePrefix (''0X'' @ body) = ''0X'' @ body"
    by (simp add: removePrefix_eq startsWith_def)
  have e: "removePrefix ''0x12'' = ''12''"
    by (simp add: removePrefix_eq startsWith_def)
  from a b c d e show ?thesis by simp
qed

theorem removePrefix_only_strips_witness:
  "isHexString ''AB12233445566778899aabbccddeeff00112233445566778899aabbccddeeff0''
   \<and> length ''AB12233445566778899aabbccddeeff00112233445566778899aabbccddeeff0'' = 64
   \<and> removePrefix (''0x'' @ ''AB12233445566778899aabbccddeeff00112233445566778899aabbccddeeff0'')
       = ''AB12233445566778899aabbccddeeff00112233445566778899aabbccddeeff0''"
proof -
  have h: "isHexString ''AB12233445566778899aabbccddeeff00112233445566778899aabbccddeeff0''
      \<and> length ''AB12233445566778899aabbccddeeff00112233445566778899aabbccddeeff0'' = 64"
    by (simp add: isHexString_def)
  from removePrefix_only_strips
         [of "[]" "''AB12233445566778899aabbccddeeff00112233445566778899aabbccddeeff0''"] h
  show ?thesis by blast
qed

end
